theory Spec2Isabelle
  imports Complex_Main "HOL-Library.Word"
begin

unbundle bit_operations_syntax

section \<open>Python values and built-ins used by the miner\<close>

text \<open>
  Python integers are unbounded and modelled as \<open>int\<close>; a \<open>bytes\<close> object is a list of
  8-bit words; a \<open>str\<close> is a \<open>string\<close>. Every exception the source can raise is a value of
  \<open>error\<close>, and a function that can raise returns \<open>error + 'a\<close> with \<open>Inl\<close> the exception.
\<close>

type_synonym byte = "8 word"

datatype error = ValueError | StructError | OverflowError | IndexError | ZeroDivisionError

definition and_then :: "error + 'a \<Rightarrow> ('a \<Rightarrow> error + 'b) \<Rightarrow> error + 'b" where
  "and_then m f = (case m of Inl e \<Rightarrow> Inl e | Inr x \<Rightarrow> f x)"

text \<open>The \<open>k\<close> low bytes of \<open>v\<close>, least significant first.\<close>

definition to_bytes_le :: "nat \<Rightarrow> int \<Rightarrow> byte list" where
  "to_bytes_le k v = map (\<lambda>i. word_of_int (drop_bit (8 * i) v)) [0..<k]"

text \<open>\<open>i.to_bytes(k, 'little')\<close>: OverflowError unless \<open>0 \<le> i < 2 ^ (8 k)\<close>.\<close>

definition int_to_bytes :: "nat \<Rightarrow> int \<Rightarrow> error + byte list" where
  "int_to_bytes k i =
     (if 0 \<le> i \<and> i < 2 ^ (8 * k) then Inr (to_bytes_le k i) else Inl OverflowError)"

text \<open>\<open>struct.pack("<L", v)\<close> and \<open>struct.pack("<I", v)\<close>: four bytes, \<open>struct.error\<close>
  outside the unsigned 32-bit range. \<open>struct.pack("<Q", v)\<close>: eight bytes.\<close>

definition struct_pack_L :: "int \<Rightarrow> error + byte list" where
  "struct_pack_L v =
     (if 0 \<le> v \<and> v < 2 ^ 32 then Inr (to_bytes_le 4 v) else Inl StructError)"

definition struct_pack_Q :: "int \<Rightarrow> error + byte list" where
  "struct_pack_Q v =
     (if 0 \<le> v \<and> v < 2 ^ 64 then Inr (to_bytes_le 8 v) else Inl StructError)"

text \<open>\<open>a << k\<close>: ValueError (negative shift count) when \<open>k < 0\<close>.\<close>

definition py_shl :: "int \<Rightarrow> int \<Rightarrow> error + int" where
  "py_shl a k = (if k < 0 then Inl ValueError else Inr (push_bit (nat k) a))"

text \<open>The subscript \<open>xs[i]\<close>. Python reads \<open>xs[-1]\<close> as the last element and raises
  IndexError once \<open>i\<close> leaves \<open>[-len(xs), len(xs) - 1]\<close>.\<close>

definition py_index :: "'a list \<Rightarrow> int \<Rightarrow> error + 'a" where
  "py_index xs i =
     (if 0 \<le> i \<and> i < int (length xs) then Inr (xs ! nat i)
      else if - int (length xs) \<le> i \<and> i < 0 then Inr (xs ! nat (int (length xs) + i))
      else Inl IndexError)"

text \<open>\<open>xs[:n]\<close>: a negative bound counts from the end.\<close>

definition py_prefix :: "'a list \<Rightarrow> int \<Rightarrow> 'a list" where
  "py_prefix xs n = (if 0 \<le> n then take (nat n) xs else take (nat (int (length xs) + n)) xs)"

text \<open>\<open>range(n)\<close> and \<open>range(0, n, 2)\<close>.\<close>

definition py_range :: "int \<Rightarrow> int list" where
  "py_range n = map int [0..<nat n]"

definition range_by_2 :: "nat \<Rightarrow> nat list" where
  "range_by_2 n = map (\<lambda>k. 2 * k) [0..<(n + 1) div 2]"

subsection \<open>True division\<close>

text \<open>A Python number is an \<open>int\<close> or a \<open>float\<close>. A finite double is a rational number,
  and \<open>Float_value q\<close> is the double whose value is \<open>q\<close> (the two zeros, which Python
  compares equal, are both \<open>Float_value 0\<close>).\<close>

datatype py_number = Int_value int | Float_value rat

fun number_value :: "py_number \<Rightarrow> rat" where
  "number_value (Int_value i) = of_int i"
| "number_value (Float_value q) = q"

text \<open>\<open>a / b\<close> on two integers is the double nearest to the exact quotient, ties going
  to the even significand; ZeroDivisionError when \<open>b\<close> is 0 and OverflowError when the
  rounded quotient does not fit a double. \<open>pow2 e\<close> is \<open>2 ** e\<close> as a rational,
  \<open>bit_length\<close> is \<open>int.bit_length\<close>, \<open>floor_log2 a b\<close> is the binary exponent of \<open>a / b\<close>
  for positive \<open>a\<close> and \<open>b\<close>, and \<open>nearest_double a b\<close> rounds \<open>a / b\<close> to 53 significant
  bits, or to a multiple of \<open>2 ** -1074\<close> below the normal range.\<close>

definition pow2 :: "int \<Rightarrow> rat" where
  "pow2 e = (if 0 \<le> e then 2 ^ nat e else 1 / 2 ^ nat (- e))"

function bit_length :: "int \<Rightarrow> nat" where
  "bit_length n = (if n \<le> 0 then 0 else Suc (bit_length (n div 2)))"
  by pat_completeness auto
termination
  by (relation "measure nat") auto

definition floor_log2 :: "int \<Rightarrow> int \<Rightarrow> int" where
  "floor_log2 a b =
     (let d = int (bit_length a) - int (bit_length b)
      in if pow2 d \<le> of_int a / of_int b then d else d - 1)"

definition round_half_even :: "rat \<Rightarrow> int" where
  "round_half_even y =
     (let f = \<lfloor>y\<rfloor>; d = y - of_int f
      in if d < 1 / 2 then f
         else if 1 / 2 < d then f + 1
         else if even f then f else f + 1)"

definition nearest_double :: "int \<Rightarrow> int \<Rightarrow> error + rat" where
  "nearest_double a b =
     (if a = 0 then Inr 0
      else let x = of_int a / of_int b;
               e = max (floor_log2 a b) (- 1022);
               ulp = pow2 (e - 52);
               y = of_int (round_half_even (x / ulp)) * ulp
           in if pow2 1024 \<le> y then Inl OverflowError else Inr y)"

definition py_truediv :: "int \<Rightarrow> int \<Rightarrow> error + rat" where
  "py_truediv a b =
     (if b = 0 then Inl ZeroDivisionError
      else and_then (nearest_double \<bar>a\<bar> \<bar>b\<bar>)
             (\<lambda>y. Inr (if (a < 0) \<noteq> (b < 0) then - y else y)))"

subsection \<open>Hexadecimal text\<close>

definition hex_digit_value :: "char \<Rightarrow> nat option" where
  "hex_digit_value c =
     (let n = (of_char c :: nat)
      in if 48 \<le> n \<and> n \<le> 57 then Some (n - 48)
         else if 97 \<le> n \<and> n \<le> 102 then Some (n - 87)
         else if 65 \<le> n \<and> n \<le> 70 then Some (n - 55)
         else None)"

definition hex_digit :: "nat \<Rightarrow> char" where
  "hex_digit n = ''0123456789abcdef'' ! (n mod 16)"

definition is_space :: "char \<Rightarrow> bool" where
  "is_space c = ((of_char c :: nat) \<in> {9, 10, 11, 12, 13, 32})"

text \<open>\<open>bytes.fromhex(s)\<close>: two hexadecimal digits per byte, ASCII whitespace skipped
  in front of a pair, ValueError on anything else.\<close>

fun fromhex :: "string \<Rightarrow> error + byte list" where
  "fromhex [] = Inr []"
| "fromhex [c] = (if is_space c then Inr [] else Inl ValueError)"
| "fromhex (c # d # s) =
     (if is_space c then fromhex (d # s)
      else case (hex_digit_value c, hex_digit_value d) of
             (Some hi, Some lo) \<Rightarrow>
               and_then (fromhex s) (\<lambda>bs. Inr (of_nat (16 * hi + lo) # bs))
           | _ \<Rightarrow> Inl ValueError)"

text \<open>\<open>b.hex()\<close>: two lower-case digits per byte.\<close>

definition hex :: "byte list \<Rightarrow> string" where
  "hex bs = concat (map (\<lambda>b. [hex_digit (unat b div 16), hex_digit (unat b mod 16)]) bs)"

text \<open>\<open>int(s, 16)\<close> on the strings the miner passes to it, which are outputs of \<open>hex\<close>:
  the digits read most significant first; ValueError on the empty string and on a
  character that is not a hexadecimal digit. (Signs, underscores, blanks and a
  \<open>0x\<close> prefix, which Python also accepts, never occur in an output of \<open>hex\<close>.)\<close>

fun hex_digits_value :: "string \<Rightarrow> int \<Rightarrow> error + int" where
  "hex_digits_value [] acc = Inr acc"
| "hex_digits_value (c # s) acc =
     (case hex_digit_value c of
        None \<Rightarrow> Inl ValueError
      | Some d \<Rightarrow> hex_digits_value s (16 * acc + int d))"

definition int_of_hex :: "string \<Rightarrow> error + int" where
  "int_of_hex s = (if s = [] then Inl ValueError else hex_digits_value s 0)"

text \<open>\<open>s.encode()\<close> on ASCII text: one byte per character.\<close>

definition encode :: "string \<Rightarrow> byte list" where
  "encode s = map of_char s"

section \<open>block.py\<close>

definition encode_varint :: "int \<Rightarrow> error + byte list" where
  "encode_varint i =
     (if i < 0xfd then int_to_bytes 1 i
      else if i \<le> 0xffff then and_then (int_to_bytes 2 i) (\<lambda>b. Inr (0xfd # b))
      else if i \<le> 0xffffffff then and_then (int_to_bytes 4 i) (\<lambda>b. Inr (0xfe # b))
      else and_then (int_to_bytes 8 i) (\<lambda>b. Inr (0xff # b)))"

text \<open>The \<open>while abs_num:\<close> loop of \<open>encode_script_num\<close>; \<open>abs_num\<close> is the result of
  \<open>abs\<close>, hence a natural number.\<close>

function script_num_loop :: "nat \<Rightarrow> byte list \<Rightarrow> byte list" where
  "script_num_loop abs_num result =
     (if abs_num \<noteq> 0
      then script_num_loop (drop_bit 8 abs_num) (result @ [of_nat (abs_num AND 0xff)])
      else result)"
  by pat_completeness auto
termination
  by (relation "measure fst") (auto simp: drop_bit_eq_div)

text \<open>\<open>result[-1]\<close> is read after the loop has run for a number other than 0, so the
  array holds at least one byte (lemma \<open>script_num_loop_nonempty\<close>).\<close>

definition encode_script_num :: "int \<Rightarrow> byte list" where
  "encode_script_num num =
     (if num = 0 then []
      else let result = script_num_loop (nat \<bar>num\<bar>) []
           in if last result AND 0x80 \<noteq> 0
              then result @ [if num < 0 then 0x80 else 0]
              else if num < 0 then butlast result @ [last result OR 0x80]
              else result)"

text \<open>\<open>base58.b58decode_check\<close> belongs to a library outside the repository: it is
  the parameter \<open>b58\<close>, which returns the decoded payload or raises ValueError.\<close>

definition address_to_script_pubkey :: "(string \<Rightarrow> error + byte list) \<Rightarrow> string \<Rightarrow> error + byte list" where
  "address_to_script_pubkey b58 address =
     and_then (b58 address) (\<lambda>decoded.
       let pubkey_hash = drop 1 decoded
       in if length pubkey_hash \<noteq> 20 then Inl ValueError
          else Inr ([0x76, 0xa9, 0x14] @ pubkey_hash @ [0x88, 0xac]))"

text \<open>\<open>bytes([n])\<close>: ValueError unless \<open>n\<close> is in \<open>range(256)\<close>.\<close>

definition byte_of_len :: "nat \<Rightarrow> error + byte list" where
  "byte_of_len n = (if n < 256 then Inr [of_nat n] else Inl ValueError)"

definition create_coinbase_tx ::
  "(string \<Rightarrow> error + byte list) \<Rightarrow> int \<Rightarrow> int \<Rightarrow> string \<Rightarrow> string \<Rightarrow> error + byte list" where
  "create_coinbase_tx b58 block_height extra_nonce miner_msg address =
     and_then (struct_pack_L 1) (\<lambda>version.
     let tx_in_count = [0x01 :: byte];
         prev_out_hash = replicate 32 (0x00 :: byte);
         prev_out_index = [0xff, 0xff, 0xff, 0xff :: byte];
         height_bytes = encode_script_num block_height
     in and_then (byte_of_len (length height_bytes)) (\<lambda>len_byte.
     let height_push = len_byte @ height_bytes
     in and_then (struct_pack_L extra_nonce) (\<lambda>packed_nonce.
     let extra_data = packed_nonce @ encode miner_msg;
         script_sig = height_push @ extra_data
     in and_then (encode_varint (int (length script_sig))) (\<lambda>script_sig_len.
     let sequence = [0xff, 0xff, 0xff, 0xff :: byte];
         tx_in = prev_out_hash @ prev_out_index @ script_sig_len @ script_sig @ sequence;
         tx_out_count = [0x01 :: byte]
     in and_then (struct_pack_Q (50 * 100000000)) (\<lambda>value.
     and_then (address_to_script_pubkey b58 address) (\<lambda>script_pubkey.
     and_then (encode_varint (int (length script_pubkey))) (\<lambda>script_pubkey_len.
     let tx_out = value @ script_pubkey_len @ script_pubkey;
         lock_time = [0x00, 0x00, 0x00, 0x00 :: byte];
         raw_tx = version @ tx_in_count @ tx_in @ tx_out_count @ tx_out @ lock_time
     in Inr raw_tx)))))))"

text \<open>\<open>hashlib.sha256(d).digest()\<close> is the parameter \<open>sha256\<close> of everything that hashes.\<close>

definition double_sha256 :: "(byte list \<Rightarrow> byte list) \<Rightarrow> byte list \<Rightarrow> byte list" where
  "double_sha256 sha256 data = sha256 (sha256 data)"

definition txid :: "(byte list \<Rightarrow> byte list) \<Rightarrow> byte list \<Rightarrow> string" where
  "txid sha256 tx_bytes = hex (rev (sha256 (sha256 tx_bytes)))"

definition bits_to_target :: "int \<Rightarrow> error + int" where
  "bits_to_target bits =
     (let exponent = drop_bit 24 bits;
          mantissa = bits AND 0xffffff
      in and_then (py_shl 1 (8 * (exponent - 3))) (\<lambda>p. Inr (mantissa * p)))"

definition serialize_block_header ::
  "int \<Rightarrow> string \<Rightarrow> string \<Rightarrow> int \<Rightarrow> int \<Rightarrow> int \<Rightarrow> error + byte list" where
  "serialize_block_header version prev_hash merkle_root timestamp bits nonce =
     and_then (struct_pack_L version) (\<lambda>v.
     and_then (fromhex prev_hash) (\<lambda>p.
     and_then (fromhex merkle_root) (\<lambda>m.
     and_then (struct_pack_L timestamp) (\<lambda>t.
     and_then (struct_pack_L bits) (\<lambda>b.
     and_then (struct_pack_L nonce) (\<lambda>n.
       Inr ([] @ v @ rev p @ rev m @ t @ b @ n)))))))"

record header_fields =
  hf_version :: int
  hf_previousblockhash :: string
  hf_merkleroot :: string
  hf_timestamp :: int
  hf_bits :: int
  hf_nonce :: int

definition compute_hash :: "(byte list \<Rightarrow> byte list) \<Rightarrow> header_fields \<Rightarrow> error + string" where
  "compute_hash sha256 hf =
     and_then (serialize_block_header (hf_version hf) (hf_previousblockhash hf)
                 (hf_merkleroot hf) (hf_timestamp hf) (hf_bits hf) (hf_nonce hf))
       (\<lambda>serialized. Inr (hex (rev (double_sha256 sha256 serialized))))"

section \<open>merkle.py\<close>

text \<open>A list comprehension whose element expression can raise stops at the first
  exception.\<close>

fun collect :: "(error + 'a) list \<Rightarrow> error + 'a list" where
  "collect [] = Inr []"
| "collect (m # ms) = and_then m (\<lambda>x. and_then (collect ms) (\<lambda>xs. Inr (x # xs)))"

text \<open>The \<open>for i in range(0, len(hashes), 2)\<close> loop. It runs on a list of even length
  (the caller has just appended to an odd one), so \<open>i + 1\<close> is an index of the list
  (lemma \<open>pair_level_in_range\<close>).\<close>

definition pair_level :: "(byte list \<Rightarrow> byte list) \<Rightarrow> byte list list \<Rightarrow> byte list list" where
  "pair_level sha256 hashes =
     map (\<lambda>i. double_sha256 sha256 (hashes ! i @ hashes ! (i + 1))) (range_by_2 (length hashes))"

definition pad_level :: "byte list list \<Rightarrow> byte list list" where
  "pad_level hashes = (if length hashes mod 2 \<noteq> 0 then hashes @ [last hashes] else hashes)"

function merkle_loop :: "(byte list \<Rightarrow> byte list) \<Rightarrow> byte list list \<Rightarrow> byte list list" where
  "merkle_loop sha256 hashes =
     (if length hashes > 1 then merkle_loop sha256 (pair_level sha256 (pad_level hashes))
      else hashes)"
  by pat_completeness auto
termination
proof (relation "measure (\<lambda>(f, hashes). length hashes)")
  fix sha256 :: "byte list \<Rightarrow> byte list" and hashes :: "byte list list"
  assume "1 < length hashes"
  then have "(length (pad_level hashes) + 1) div 2 < length hashes"
    by (auto simp: pad_level_def) arith+
  then show "((sha256, pair_level sha256 (pad_level hashes)), (sha256, hashes))
               \<in> measure (\<lambda>(f, hashes). length hashes)"
    by (simp add: pair_level_def range_by_2_def)
qed simp

definition merkle_root :: "(byte list \<Rightarrow> byte list) \<Rightarrow> string list \<Rightarrow> error + string" where
  "merkle_root sha256 tx_hashes =
     (if length tx_hashes = 0 then Inr (concat (replicate 32 ''00''))
      else and_then (collect (map fromhex tx_hashes)) (\<lambda>hashes.
             Inr (hex (rev (merkle_loop sha256 hashes ! 0)))))"

section \<open>constants.py\<close>

definition VERSION :: int where
  "VERSION = 0x20000000"

definition PREVIOUS_BLOCK_HASH :: string where
  "PREVIOUS_BLOCK_HASH = concat (replicate 32 ''00'')"

definition BITS :: int where
  "BITS = 0x1f7fffff"

definition TRANSACTIONS :: "string list" where
  "TRANSACTIONS =
     [''27a1ed6ac1abbc3298f5c593c4b236d3360602e3d973f2e2eae78ae8ebb00eef'',
      ''d10c02cf8eb0e9ea32a037e0bc3a7290958ce00ca39e8162a221a0c59e8592d8'',
      ''d5323c5921a64e2ef7ee61f09400811b4ce501b37c0e0eb062d391280000749e'',
      ''9e4ab9d29f3178bc90333944cdfd9bdfc9b1ed36b5519566b64b06b0e5f6c6cd'',
      ''55adb58a31be1fa5bebad8a23e34035d3da781ea5a3fbcbb610bd629be3eb3d4'',
      ''c5b3e91ff5a90e35003c35ab34b866e09a05f411b9c16583d61eed57e7b62a30'',
      ''83e4dde10315507d5387f22f5a7b9d4d41cd57989aa9ecbc7accd1e91bd99128'']"

section \<open>simple\_bitcoin\_env.py\<close>

text \<open>The fields of \<open>SimpleBitcoinEnv\<close> that \<open>step\<close>, \<open>reset\<close> and \<open>_get_obs\<close> read or
  write. (The gym action and observation spaces are descriptions for the agent and
  take no part in a step.)\<close>

record env =
  version :: int
  previousblockhash :: string
  bits :: int
  base_timestamp :: int
  transactions :: "string list"
  num_txs :: int
  target :: int
  current_nonce :: int
  current_timestamp :: int
  current_tx_order :: "int list"
  block_height :: int

record action =
  nonce :: int
  extra_nonce :: int
  tx_order :: "int list"

record observation =
  obs_version :: int
  obs_previousblockhash :: "byte list"
  obs_bits :: int
  obs_timestamp :: int
  obs_nonce :: int
  obs_tx_order :: "int list"

record info =
  block_hash :: string
  hash_int :: int
  info_target :: int
  info_header_fields :: header_fields
  coinbase_tx :: string
  full_tx_list :: "string list"

text \<open>The tuple \<open>(observation, reward, done, info)\<close> that \<open>step\<close> returns
  (\<open>done\<close> is the field \<open>done_flag\<close>). The reward is the \<open>int\<close> 100 or the \<open>float\<close>
  \<open>-(hash_int / 2 ** 256)\<close>.\<close>

record step_result =
  obs :: observation
  reward :: py_number
  done_flag :: bool
  info :: info

text \<open>\<open>__init__\<close>; \<open>BASE_TIMESTAMP = int(time.time())\<close> is read from the clock when the
  module is loaded and is the parameter \<open>t0\<close>.\<close>

definition init :: "int \<Rightarrow> error + env" where
  "init t0 =
     and_then (bits_to_target BITS) (\<lambda>tg.
       Inr \<lparr>version = VERSION, previousblockhash = PREVIOUS_BLOCK_HASH, bits = BITS,
            base_timestamp = t0, transactions = TRANSACTIONS,
            num_txs = int (length TRANSACTIONS), target = tg,
            current_nonce = 0, current_timestamp = t0,
            current_tx_order = py_range (int (length TRANSACTIONS)),
            block_height = 1\<rparr>)"

text \<open>The two loops of \<open>fix_permutation\<close>, then the slice \<open>res[:n]\<close>.\<close>

fun keep_loop :: "int \<Rightarrow> int list \<Rightarrow> int set \<Rightarrow> int list \<Rightarrow> int set \<times> int list" where
  "keep_loop n [] seen res = (seen, res)"
| "keep_loop n (x # arr) seen res =
     (if x \<notin> seen \<and> 0 \<le> x \<and> x < n then keep_loop n arr (insert x seen) (res @ [x])
      else keep_loop n arr seen res)"

fun fill_loop :: "int list \<Rightarrow> int set \<Rightarrow> int list \<Rightarrow> int list" where
  "fill_loop [] seen res = res"
| "fill_loop (x # r) seen res =
     (if x \<notin> seen then fill_loop r seen (res @ [x]) else fill_loop r seen res)"

definition fix_permutation :: "int list \<Rightarrow> int \<Rightarrow> int list" where
  "fix_permutation arr n =
     (case keep_loop n arr {} [] of
        (seen, res) \<Rightarrow> py_prefix (fill_loop (py_range n) seen res) n)"

text \<open>Lines 114 and 115 of \<open>step\<close>: every entry is clamped into \<open>[0, num_txs - 1]\<close>, then
  the list is repaired.\<close>

definition repaired_tx_order :: "env \<Rightarrow> int list \<Rightarrow> int list" where
  "repaired_tx_order s order =
     fix_permutation (map (\<lambda>i. min (max 0 i) (num_txs s - 1)) order) (num_txs s)"

definition get_obs :: "env \<Rightarrow> error + observation" where
  "get_obs s =
     and_then (fromhex (previousblockhash s)) (\<lambda>prev_hash_bytes.
       Inr \<lparr>obs_version = version s, obs_previousblockhash = prev_hash_bytes,
            obs_bits = bits s, obs_timestamp = current_timestamp s,
            obs_nonce = current_nonce s, obs_tx_order = current_tx_order s\<rparr>)"

text \<open>The local variables of \<open>step\<close> once the hash is known (line 143).\<close>

record attempt =
  att_nonce :: int
  att_tx_order :: "int list"
  att_new_timestamp :: int
  att_coinbase_tx :: string
  att_full_tx_list :: "string list"
  att_header_fields :: header_fields
  att_block_hash :: string
  att_hash_int :: int

text \<open>Lines 110 to 143 of \<open>step\<close>: nothing is written to the environment here, and any
  exception leaves it as it was.\<close>

definition mine ::
  "(byte list \<Rightarrow> byte list) \<Rightarrow> (string \<Rightarrow> error + byte list) \<Rightarrow> env \<Rightarrow> action \<Rightarrow> error + attempt" where
  "mine sha256 b58 s a =
     (let nonce = nonce a;
          extra_nonce = extra_nonce a;
          tx_order = repaired_tx_order s (tx_order a);
          new_timestamp = base_timestamp s;
          new_timestamp = (if new_timestamp < base_timestamp s then base_timestamp s
                           else new_timestamp)
      in and_then (create_coinbase_tx b58 (block_height s) extra_nonce ''Mining with RL''
                     ''1A1zP1eP5QGefi2DMPTfTL5SLmv7DivfNa'') (\<lambda>raw_coinbase_tx.
         let coinbase_tx = txid sha256 raw_coinbase_tx
         in and_then (collect (map (py_index (transactions s)) tx_order)) (\<lambda>reordered_txs.
         let full_tx_list = [coinbase_tx] @ reordered_txs
         in and_then (merkle_root sha256 full_tx_list) (\<lambda>new_merkle_root.
         let header_fields =
               \<lparr>hf_version = version s, hf_previousblockhash = previousblockhash s,
                hf_merkleroot = new_merkle_root, hf_timestamp = new_timestamp,
                hf_bits = bits s, hf_nonce = nonce\<rparr>
         in and_then (compute_hash sha256 header_fields) (\<lambda>block_hash.
            and_then (int_of_hex block_hash) (\<lambda>hash_int.
              Inr \<lparr>att_nonce = nonce, att_tx_order = tx_order,
                   att_new_timestamp = new_timestamp, att_coinbase_tx = coinbase_tx,
                   att_full_tx_list = full_tx_list, att_header_fields = header_fields,
                   att_block_hash = block_hash, att_hash_int = hash_int\<rparr>))))))"

text \<open>\<open>step\<close> from line 147 on. \<open>generate_transactions()\<close> draws the next pool from
  \<open>os.urandom\<close>: the list it returns on this call is the parameter \<open>fresh\<close>. The result
  is the environment after the call, with the returned tuple or the exception raised.
  The division of line 161 is the only statement of the \<open>else\<close> branch, so when it
  raises nothing has been written yet.\<close>

definition step ::
  "(byte list \<Rightarrow> byte list) \<Rightarrow> (string \<Rightarrow> error + byte list) \<Rightarrow> string list \<Rightarrow>
     env \<Rightarrow> action \<Rightarrow> env \<times> (error + step_result)" where
  "step sha256 b58 fresh s a =
     (case mine sha256 b58 s a of
        Inl e \<Rightarrow> (s, Inl e)
      | Inr m \<Rightarrow>
          let done_flag = False
          in case (if att_hash_int m < target s
                   then Inr (Int_value 100,
                             s\<lparr>previousblockhash := att_block_hash m,
                               block_height := block_height s + 1,
                               transactions := fresh,
                               num_txs := int (length fresh)\<rparr>)
                   else and_then (py_truediv (att_hash_int m) (2 ^ 256))
                          (\<lambda>q. Inr (Float_value (- q), s))) of
               Inl e \<Rightarrow> (s, Inl e)
             | Inr (rwd, s1) \<Rightarrow>
                 let s2 = s1\<lparr>current_nonce := att_nonce m,
                             current_timestamp := att_new_timestamp m,
                             current_tx_order := att_tx_order m\<rparr>
                 in (s2, and_then (get_obs s2) (\<lambda>ob.
                           Inr \<lparr>obs = ob, reward = rwd, done_flag = done_flag,
                                info = \<lparr>block_hash = att_block_hash m,
                                        hash_int = att_hash_int m,
                                        info_target = target s2,
                                        info_header_fields = att_header_fields m,
                                        coinbase_tx = att_coinbase_tx m,
                                        full_tx_list = att_full_tx_list m\<rparr>\<rparr>)))"

definition reset :: "env \<Rightarrow> env \<times> (error + observation)" where
  "reset s =
     (let s' = s\<lparr>current_nonce := 0, current_timestamp := base_timestamp s,
                 current_tx_order := py_range (num_txs s), block_height := 1,
                 previousblockhash := concat (replicate 32 ''00'')\<rparr>
      in (s', get_obs s'))"

text \<open>The environments a program can hold: built by \<open>__init__\<close>, then any sequence of
  \<open>reset\<close> and \<open>step\<close> calls, whatever they return.\<close>

inductive reachable ::
  "(byte list \<Rightarrow> byte list) \<Rightarrow> (string \<Rightarrow> error + byte list) \<Rightarrow> env \<Rightarrow> bool"
  for sha256 :: "byte list \<Rightarrow> byte list" and b58 :: "string \<Rightarrow> error + byte list" where
  reachable_init: "init t0 = Inr s \<Longrightarrow> reachable sha256 b58 s"
| reachable_reset: "reachable sha256 b58 s \<Longrightarrow> reachable sha256 b58 (fst (reset s))"
| reachable_step: "reachable sha256 b58 s \<Longrightarrow> reachable sha256 b58 (fst (step sha256 b58 fresh s a))"

section \<open>The specification's notions\<close>

text \<open>The integer a byte string denotes, least significant byte first and most
  significant byte first.\<close>

fun le_value :: "byte list \<Rightarrow> int" where
  "le_value [] = 0"
| "le_value (b # bs) = uint b + 256 * le_value bs"

definition be_value :: "byte list \<Rightarrow> int" where
  "be_value bs = le_value (rev bs)"


text \<open>The normalisation of an ordering over \<open>n\<close> transactions as the specification
  words it: drop the entries out of range, drop the duplicates keeping the first
  occurrence, append the missing indices in ascending order.\<close>

fun dedup :: "int list \<Rightarrow> int list" where
  "dedup [] = []"
| "dedup (x # xs) = x # dedup (removeAll x xs)"

definition normalise :: "int list \<Rightarrow> int \<Rightarrow> int list" where
  "normalise arr n =
     (let kept = dedup (filter (\<lambda>x. 0 \<le> x \<and> x < n) arr)
      in kept @ filter (\<lambda>x. x \<notin> set kept) (py_range n))"

text \<open>The Merkle reduction as the specification words it: duplicate the last element
  of a level of odd length, replace each adjacent pair by the double hash of its
  concatenation, until exactly one element remains.\<close>

fun pair_up :: "(byte list \<Rightarrow> byte list) \<Rightarrow> byte list list \<Rightarrow> byte list list" where
  "pair_up sha256 (l # r # rest) = double_sha256 sha256 (l @ r) # pair_up sha256 rest"
| "pair_up sha256 _ = []"

definition dup_last_if_odd :: "byte list list \<Rightarrow> byte list list" where
  "dup_last_if_odd level = (if odd (length level) then level @ [last level] else level)"

function merkle_reduce :: "(byte list \<Rightarrow> byte list) \<Rightarrow> byte list list \<Rightarrow> byte list list" where
  "merkle_reduce sha256 [] = []"
| "merkle_reduce sha256 [h] = [h]"
| "merkle_reduce sha256 (h # k # level) =
     merkle_reduce sha256 (pair_up sha256 (dup_last_if_odd (h # k # level)))"
  by pat_completeness auto
termination
proof (relation "measure (\<lambda>(f, level). length level)")
  fix sha256 :: "byte list \<Rightarrow> byte list" and h k :: "byte list" and level :: "byte list list"
  have len: "length (pair_up sha256 xs) = length xs div 2" for xs
    by (induction sha256 xs rule: pair_up.induct) simp_all
  show "((sha256, pair_up sha256 (dup_last_if_odd (h # k # level))), (sha256, h # k # level))
          \<in> measure (\<lambda>(f, level). length level)"
    by (auto simp: len dup_last_if_odd_def elim: oddE)
qed simp

definition merkle_root_spec :: "(byte list \<Rightarrow> byte list) \<Rightarrow> string list \<Rightarrow> error + string" where
  "merkle_root_spec sha256 tx_hashes =
     (if tx_hashes = [] then Inr (replicate 64 CHR ''0'')
      else and_then (collect (map fromhex tx_hashes)) (\<lambda>level.
             case merkle_reduce sha256 level of
               [h] \<Rightarrow> Inr (hex (rev h))
             | _ \<Rightarrow> Inl IndexError))"

section \<open>Inputs of the worked examples\<close>

text \<open>A stand-in for SHA-256 that returns the digest \<open>dg\<close> whatever it is given, a
  Base58Check decoder that returns a version byte and a 20-byte hash, and an action
  whose ordering has a duplicate and entries on both sides of the range.\<close>

definition constant_digest :: "byte list \<Rightarrow> byte list \<Rightarrow> byte list" where
  "constant_digest dg data = dg"

definition decoded_21 :: "string \<Rightarrow> error + byte list" where
  "decoded_21 address = Inr (replicate 21 0)"

definition example_action :: action where
  "example_action = \<lparr>nonce = 0, extra_nonce = 0, tx_order = [9, 9, -4]\<rparr>"

text \<open>An environment with three non-coinbase transactions.\<close>

definition three_tx_env :: env where
  "three_tx_env =
     \<lparr>version = VERSION, previousblockhash = PREVIOUS_BLOCK_HASH, bits = BITS,
      base_timestamp = 1700000000, transactions = take 3 TRANSACTIONS, num_txs = 3,
      target = 0x7fffff * 2 ^ 224, current_nonce = 0, current_timestamp = 1700000000,
      current_tx_order = [0, 1, 2], block_height = 1\<rparr>"

section \<open>Basic facts\<close>

declare merkle_loop.simps [simp del]

lemma and_then_simps [simp]: "and_then (Inl e) f = Inl e" "and_then (Inr x) f = f x"
  by (simp_all add: and_then_def)

lemma and_then_Inr_iff: "and_then m f = Inr y \<longleftrightarrow> (\<exists>x. m = Inr x \<and> f x = Inr y)"
  by (cases m) simp_all

lemma top_byte_div: "drop_bit 24 (cb::int) = cb div 2 ^ 24"
  by (simp add: drop_bit_eq_div)

lemma low_24_mod: "(cb::int) AND 0xffffff = cb mod 2 ^ 24"
proof -
  have "(0xffffff::int) = mask 24" by (simp add: mask_eq_exp_minus_1)
  then show ?thesis by (simp only: take_bit_eq_mod flip: take_bit_eq_mask)
qed

subsection \<open>True division\<close>

declare bit_length.simps [simp del]

lemma pow2_powi: "pow2 e = 2 powi e"
  by (simp add: pow2_def power_int_def inverse_eq_divide power_one_over)

lemma pow2_pos [simp]: "0 < pow2 e"
  by (simp add: pow2_powi zero_less_power_int)

lemma pow2_minus_52: "pow2 (e - 52) = pow2 e / 2 ^ 52"
  by (simp add: pow2_powi power_int_diff)

lemma bit_length_bounds:
  "0 < a \<Longrightarrow> 2 ^ bit_length a \<le> 2 * a \<and> a < 2 ^ bit_length a"
proof (induction a rule: bit_length.induct)
  case (1 n)
  show ?case
  proof (cases "n = 1")
    case True
    have "bit_length (1::int) = Suc (bit_length 0)"
      by (subst bit_length.simps) simp
    also have "bit_length (0::int) = 0"
      by (subst bit_length.simps) simp
    finally show ?thesis using True by simp
  next
    case False
    with "1.prems" have half: "0 < n div 2"
      by simp
    from "1.prems" have unfold: "bit_length n = Suc (bit_length (n div 2))"
      by (subst bit_length.simps) simp
    from "1.IH" "1.prems" half
    have ih: "2 ^ bit_length (n div 2) \<le> 2 * (n div 2)" "n div 2 < 2 ^ bit_length (n div 2)"
      by simp_all
    have "2 * (n div 2) \<le> n"
      by simp
    moreover from ih(2) have "n < 2 * 2 ^ bit_length (n div 2)"
      by linarith
    ultimately show ?thesis
      using ih(1) by (simp add: unfold)
  qed
qed

lemma floor_log2_lower:
  assumes "0 < a" and "0 < b"
  shows "pow2 (floor_log2 a b) \<le> of_int a / of_int b"
proof (cases "pow2 (int (bit_length a) - int (bit_length b)) \<le> of_int a / of_int b")
  case True
  then show ?thesis by (simp add: floor_log2_def)
next
  case False
  from bit_length_bounds [OF assms(1)] have a: "(2::int) ^ bit_length a \<le> 2 * a"
    by simp
  from bit_length_bounds [OF assms(2)] have b: "b < 2 ^ bit_length b"
    by simp
  from a have "of_int ((2::int) ^ bit_length a) \<le> (of_int (2 * a) :: rat)"
    by (simp only: of_int_le_iff)
  then have a': "(2::rat) ^ bit_length a \<le> 2 * of_int a"
    by simp
  from b have "(of_int b :: rat) < of_int ((2::int) ^ bit_length b)"
    by (simp only: of_int_less_iff)
  then have b': "(of_int b :: rat) \<le> 2 ^ bit_length b"
    by simp
  have "pow2 (int (bit_length a) - int (bit_length b) - 1)
      = (2 ^ bit_length a / 2) / 2 ^ bit_length b"
    by (simp add: pow2_powi power_int_diff)
  also have "\<dots> \<le> of_int a / of_int b"
    using a' b' assms by (intro frac_le) simp_all
  finally show ?thesis
    using False by (simp add: floor_log2_def)
qed

lemma floor_log2_upper:
  assumes "0 < a" and "0 < b"
  shows "of_int a / of_int b < pow2 (floor_log2 a b + 1)"
proof (cases "pow2 (int (bit_length a) - int (bit_length b)) \<le> of_int a / of_int b")
  case False
  then show ?thesis by (simp add: floor_log2_def)
next
  case True
  from bit_length_bounds [OF assms(1)] have "a < 2 ^ bit_length a"
    by simp
  then have "(of_int a :: rat) < of_int ((2::int) ^ bit_length a)"
    by (simp only: of_int_less_iff)
  then have a': "(of_int a :: rat) < 2 ^ bit_length a"
    by simp
  from bit_length_bounds [OF assms(2)] have "(2::int) ^ bit_length b \<le> 2 * b"
    by simp
  then have "of_int ((2::int) ^ bit_length b) \<le> (of_int (2 * b) :: rat)"
    by (simp only: of_int_le_iff)
  then have b': "(2::rat) ^ bit_length b / 2 \<le> of_int b"
    by simp
  have "(of_int a :: rat) / of_int b < 2 ^ bit_length a / (2 ^ bit_length b / 2)"
    using a' b' assms by (intro frac_less) simp_all
  also have "\<dots> = pow2 (int (bit_length a) - int (bit_length b) + 1)"
    by (simp add: pow2_powi power_int_diff power_int_add)
  finally show ?thesis
    using True by (simp add: floor_log2_def)
qed

lemma round_half_even_near: "\<bar>of_int (round_half_even y) - y\<bar> \<le> 1 / 2"
proof -
  define f where "f = \<lfloor>y\<rfloor>"
  define d where "d = y - of_int f"
  have range: "0 \<le> d" "d < 1"
    unfolding d_def f_def by linarith+
  have y: "y = of_int f + d"
    by (simp add: d_def)
  have r: "round_half_even y =
      (if d < 1 / 2 then f else if 1 / 2 < d then f + 1 else if even f then f else f + 1)"
    by (simp add: round_half_even_def Let_def f_def d_def)
  consider "d < 1 / 2" | "1 / 2 < d" | "d = 1 / 2"
    by linarith
  then show ?thesis
  proof cases
    case 1
    then have "round_half_even y = f"
      by (simp add: r)
    with range 1 show ?thesis by (simp add: y)
  next
    case 2
    then have "round_half_even y = f + 1"
      by (simp add: r)
    with range 2 show ?thesis by (simp add: y)
  next
    case 3
    then have "round_half_even y = f \<or> round_half_even y = f + 1"
      by (simp add: r)
    with 3 show ?thesis by (auto simp: y)
  qed
qed

lemma round_half_even_nonneg: "0 \<le> y \<Longrightarrow> 0 \<le> round_half_even y"
proof -
  assume "0 \<le> y"
  then have "0 \<le> \<lfloor>y\<rfloor>"
    by simp
  then show ?thesis
    by (simp add: round_half_even_def Let_def)
qed

lemma nearest_double_nonneg:
  assumes "0 \<le> a" and "0 < b" and "nearest_double a b = Inr q"
  shows "0 \<le> q"
proof (cases "a = 0")
  case True
  with assms(3) show ?thesis by (simp add: nearest_double_def)
next
  case False
  define ulp where "ulp = pow2 (max (floor_log2 a b) (- 1022) - 52)"
  from False assms(3) have q: "q = of_int (round_half_even (of_int a / of_int b / ulp)) * ulp"
    by (auto simp: nearest_double_def Let_def ulp_def split: if_splits)
  have "0 < ulp"
    by (simp add: ulp_def)
  moreover from assms(1,2) this have "(0::rat) \<le> of_int a / of_int b / ulp"
    by simp
  then have "0 \<le> round_half_even (of_int a / of_int b / ulp)"
    by (rule round_half_even_nonneg)
  ultimately show ?thesis
    by (simp add: q)
qed

lemma nearest_double_near:
  assumes "0 < a" and "0 < b" and "pow2 (- 1022) \<le> of_int a / of_int b"
    and "nearest_double a b = Inr q"
  shows "\<bar>q - of_int a / of_int b\<bar> \<le> (of_int a / of_int b) / 2 ^ 53"
proof -
  define x :: rat where "x = of_int a / of_int b"
  define e where "e = max (floor_log2 a b) (- 1022)"
  define ulp where "ulp = pow2 (e - 52)"
  from assms(1,4) have q: "q = of_int (round_half_even (x / ulp)) * ulp"
    by (auto simp: nearest_double_def Let_def x_def e_def ulp_def split: if_splits)
  have ulp_pos: "0 < ulp"
    by (simp add: ulp_def)
  have "pow2 e \<le> x"
    using floor_log2_lower [OF assms(1,2)] assms(3)
    by (simp add: e_def x_def max_def)
  then have ulp_le: "ulp \<le> x / 2 ^ 52"
    by (simp add: ulp_def pow2_minus_52 divide_right_mono)
  have "q - x = (of_int (round_half_even (x / ulp)) - x / ulp) * ulp"
    using ulp_pos by (simp add: q left_diff_distrib)
  then have "\<bar>q - x\<bar> = \<bar>of_int (round_half_even (x / ulp)) - x / ulp\<bar> * \<bar>ulp\<bar>"
    by (simp only: abs_mult)
  also have "\<dots> = \<bar>of_int (round_half_even (x / ulp)) - x / ulp\<bar> * ulp"
    using ulp_pos by simp
  also have "\<dots> \<le> (1 / 2) * ulp"
    using round_half_even_near [of "x / ulp"] ulp_pos by (intro mult_right_mono) simp_all
  also have "\<dots> \<le> (1 / 2) * (x / 2 ^ 52)"
    using ulp_le by simp
  finally show ?thesis
    by (simp add: x_def)
qed

subsection \<open>Indices that are read\<close>

declare script_num_loop.simps [simp del]

lemma script_num_loop_length: "length acc \<le> length (script_num_loop n acc)"
proof (induction n acc rule: script_num_loop.induct)
  case (1 abs_num result)
  show ?case
  proof (cases "abs_num = 0")
    case True
    then show ?thesis by (subst script_num_loop.simps) simp
  next
    case False
    with "1.IH" have "length (result @ [of_nat (abs_num AND 0xff)])
        \<le> length (script_num_loop (drop_bit 8 abs_num) (result @ [of_nat (abs_num AND 0xff)]))"
      by simp
    with False show ?thesis
      by (subst script_num_loop.simps) simp
  qed
qed

lemma script_num_loop_nonempty: "n \<noteq> 0 \<Longrightarrow> script_num_loop n [] \<noteq> []"
proof -
  assume n: "n \<noteq> 0"
  have "length [of_nat (n AND 0xff) :: byte]
      \<le> length (script_num_loop (drop_bit 8 n) [of_nat (n AND 0xff)])"
    by (rule script_num_loop_length)
  with n show ?thesis
    by (subst script_num_loop.simps) auto
qed

lemma pair_level_in_range:
  "even (length hashes) \<Longrightarrow> i \<in> set (range_by_2 (length hashes)) \<Longrightarrow> i + 1 < length hashes"
proof -
  assume e: "even (length hashes)" and i: "i \<in> set (range_by_2 (length hashes))"
  from i obtain k where k: "i = 2 * k" "k < (length hashes + 1) div 2"
    by (auto simp: range_by_2_def)
  from e obtain h where h: "length hashes = 2 * h"
    by (rule evenE)
  from k h show ?thesis
    by simp
qed

subsection \<open>Hexadecimal text\<close>

lemma hex_digit_value_nth: "k < 16 \<Longrightarrow> hex_digit_value (''0123456789abcdef'' ! k) = Some k"
proof -
  assume k: "k < 16"
  have "list_all (\<lambda>k. hex_digit_value (''0123456789abcdef'' ! k) = Some k) [0..<16]"
    by code_simp
  then have "\<forall>k \<in> set [0..<16]. hex_digit_value (''0123456789abcdef'' ! k) = Some k"
    by (simp only: list_all_iff)
  with k show ?thesis by simp
qed

lemma hex_digit_value_hex_digit: "hex_digit_value (hex_digit n) = Some (n mod 16)"
  by (simp add: hex_digit_def hex_digit_value_nth)

lemma hex_digit_not_space: "hex_digit_value c = Some d \<Longrightarrow> \<not> is_space c"
  by (auto simp: hex_digit_value_def is_space_def Let_def split: if_splits)

lemma high_nibble: "unat (b :: byte) div 16 mod 16 = unat b div 16"
proof -
  have "unat b < 256"
    using unsigned_less [of b, where ?'a = nat] by simp
  then show ?thesis by simp
qed

lemma hex_digits_value_nonneg:
  "hex_digits_value s acc = Inr v \<Longrightarrow> 0 \<le> acc \<Longrightarrow> 0 \<le> v"
  by (induction s acc rule: hex_digits_value.induct) (auto split: option.splits)

lemma int_of_hex_nonneg: "int_of_hex s = Inr v \<Longrightarrow> 0 \<le> v"
  by (auto simp: int_of_hex_def dest: hex_digits_value_nonneg split: if_splits)

lemma le_value_snoc: "le_value (bs @ [b]) = le_value bs + 256 ^ length bs * uint b"
  by (induction bs) (simp_all add: algebra_simps)

lemma hex_digits_value_hex:
  "hex_digits_value (hex bs) acc = Inr (256 ^ length bs * acc + be_value bs)"
proof (induction bs arbitrary: acc)
  case Nil
  show ?case by (simp add: hex_def be_value_def)
next
  case (Cons b bs)
  have nibbles: "16 * int (unat b div 16) + int (unat b mod 16) = uint b"
  proof -
    have "int (unat b div 16) = uint b div 16" "int (unat b mod 16) = uint b mod 16"
      by (simp_all add: zdiv_int zmod_int)
    then show ?thesis by (simp only: mult_div_mod_eq)
  qed
  have "hex_digits_value (hex (b # bs)) acc =
          hex_digits_value (hex bs) (16 * (16 * acc + int (unat b div 16)) + int (unat b mod 16))"
    by (simp add: hex_def hex_digit_value_hex_digit high_nibble)
  also have "16 * (16 * acc + int (unat b div 16)) + int (unat b mod 16) = 256 * acc + uint b"
    using nibbles by simp
  finally show ?case
    by (simp add: Cons.IH be_value_def le_value_snoc algebra_simps)
qed

lemma hex_eq_Nil [simp]: "hex bs = [] \<longleftrightarrow> bs = []"
  by (cases bs) (simp_all add: hex_def)

lemma int_of_hex_hex: "bs \<noteq> [] \<Longrightarrow> int_of_hex (hex bs) = Inr (be_value bs)"
  by (simp add: int_of_hex_def hex_digits_value_hex)

lemma fromhex_hex: "fromhex (hex bs) = Inr bs"
proof (induction bs)
  case Nil
  show ?case by (simp add: hex_def)
next
  case (Cons b bs)
  have joined: "(of_nat (16 * (unat b div 16) + unat b mod 16) :: byte) = b"
    by (simp only: mult_div_mod_eq) simp
  have "hex (b # bs) = hex_digit (unat b div 16) # hex_digit (unat b mod 16) # hex bs"
    by (simp add: hex_def)
  then show ?case
    using hex_digit_not_space [OF hex_digit_value_hex_digit, of "unat b div 16"]
    by (simp add: hex_digit_value_hex_digit high_nibble joined Cons.IH
          del: of_nat_add of_nat_mult)
qed


subsection \<open>Little-endian packing\<close>


lemma length_to_bytes_le [simp]: "length (to_bytes_le k v) = k"
  by (simp add: to_bytes_le_def)



subsection \<open>The permutation repair\<close>

lemma set_dedup [simp]: "set (dedup xs) = set xs"
  by (induction xs rule: dedup.induct) auto

lemma distinct_dedup [simp]: "distinct (dedup xs)"
  by (induction xs rule: dedup.induct) auto

lemma removeAll_filter_conv: "removeAll x (filter P xs) = filter (\<lambda>y. P y \<and> y \<noteq> x) xs"
  by (induction xs) auto

lemma keep_loop_eq:
  "keep_loop n arr seen res =
     (seen \<union> {x \<in> set arr. 0 \<le> x \<and> x < n},
      res @ dedup (filter (\<lambda>x. x \<notin> seen \<and> 0 \<le> x \<and> x < n) arr))"
proof (induction arr arbitrary: seen res)
  case Nil
  show ?case by simp
next
  case (Cons x arr)
  let ?P = "\<lambda>y. y \<notin> seen \<and> 0 \<le> y \<and> y < n"
  show ?case
  proof (cases "?P x")
    case True
    have "filter (\<lambda>y. ?P y \<and> y \<noteq> x) arr = filter (\<lambda>y. y \<notin> insert x seen \<and> 0 \<le> y \<and> y < n) arr"
      by (rule filter_cong) auto
    with True have "dedup (filter ?P (x # arr)) =
        x # dedup (filter (\<lambda>y. y \<notin> insert x seen \<and> 0 \<le> y \<and> y < n) arr)"
      by (simp add: removeAll_filter_conv)
    moreover have "keep_loop n (x # arr) seen res = keep_loop n arr (insert x seen) (res @ [x])"
      using True by simp
    moreover have "insert x seen \<union> {y \<in> set arr. 0 \<le> y \<and> y < n} =
        seen \<union> {y \<in> set (x # arr). 0 \<le> y \<and> y < n}"
      using True by auto
    ultimately show ?thesis
      by (simp only: Cons.IH append_assoc append_Cons append_Nil)
  next
    case False
    then have "keep_loop n (x # arr) seen res = keep_loop n arr seen res"
      by auto
    moreover from False have "filter ?P (x # arr) = filter ?P arr"
      by auto
    moreover from False have "seen \<union> {y \<in> set (x # arr). 0 \<le> y \<and> y < n} =
        seen \<union> {y \<in> set arr. 0 \<le> y \<and> y < n}"
      by auto
    ultimately show ?thesis
      by (simp only: Cons.IH)
  qed
qed

lemma fill_loop_eq: "fill_loop r seen res = res @ filter (\<lambda>x. x \<notin> seen) r"
  by (induction r arbitrary: res) simp_all

lemma set_py_range: "set (py_range n) = {x. 0 \<le> x \<and> x < n}"
proof -
  have "x \<in> int ` {0..<nat n} \<longleftrightarrow> 0 \<le> x \<and> x < n" for x
    by (auto simp: image_iff intro: bexI [of _ "nat x"])
  then show ?thesis by (auto simp: py_range_def)
qed

lemma distinct_py_range: "distinct (py_range n)"
  by (simp add: py_range_def distinct_map inj_on_def)

lemma length_py_range: "length (py_range n) = nat n"
  by (simp add: py_range_def)

lemma normalise_perm:
  "distinct (normalise arr n)" "set (normalise arr n) = set (py_range n)"
  by (auto simp: normalise_def Let_def set_py_range distinct_py_range)

lemma length_normalise: "length (normalise arr n) = nat n"
proof -
  have "length (normalise arr n) = card (set (normalise arr n))"
    by (simp add: distinct_card normalise_perm(1))
  also have "\<dots> = card (set (py_range n))"
    by (simp add: normalise_perm(2))
  also have "\<dots> = nat n"
    by (simp add: distinct_card distinct_py_range length_py_range)
  finally show ?thesis .
qed

lemma fix_permutation_loops:
  "(case keep_loop n arr {} [] of (seen, res) \<Rightarrow> fill_loop (py_range n) seen res) = normalise arr n"
proof -
  have "filter (\<lambda>x. x \<notin> {x \<in> set arr. 0 \<le> x \<and> x < n}) (py_range n)
      = filter (\<lambda>x. x \<notin> set (dedup (filter (\<lambda>x. 0 \<le> x \<and> x < n) arr))) (py_range n)"
    by (rule filter_cong) auto
  then show ?thesis
    by (simp add: keep_loop_eq fill_loop_eq normalise_def Let_def)
qed

lemma fix_permutation_normalise: "fix_permutation arr n = normalise arr n"
proof -
  have "fix_permutation arr n = py_prefix (normalise arr n) n"
    using fix_permutation_loops [of n arr]
    by (simp add: fix_permutation_def split: prod.splits)
  also have "\<dots> = normalise arr n"
    using length_normalise [of arr n] by (cases "0 \<le> n") (simp_all add: py_prefix_def)
  finally show ?thesis .
qed

subsection \<open>The Merkle loop\<close>

lemma pad_level_dup: "pad_level hashes = dup_last_if_odd hashes"
  by (simp add: pad_level_def dup_last_if_odd_def odd_iff_mod_2_eq_one)

lemma range_by_2_step: "range_by_2 (Suc (Suc n)) = 0 # map (\<lambda>i. Suc (Suc i)) (range_by_2 n)"
proof -
  have "[0..<Suc ((n + 1) div 2)] = 0 # map Suc [0..<(n + 1) div 2]"
    by (simp add: upt_conv_Cons map_Suc_upt del: upt_Suc)
  then show ?thesis
    by (simp add: range_by_2_def comp_def del: upt_Suc)
qed

lemma pair_level_step:
  "pair_level sha256 (l # r # rest) = double_sha256 sha256 (l @ r) # pair_level sha256 rest"
  by (simp add: pair_level_def range_by_2_step comp_def)

lemma pair_level_Nil: "pair_level sha256 [] = []"
  by (simp add: pair_level_def range_by_2_def)

lemma pair_level_pair_up:
  "even (length hashes) \<Longrightarrow> pair_level sha256 hashes = pair_up sha256 hashes"
  by (induction sha256 hashes rule: pair_up.induct)
     (simp_all add: pair_level_step pair_level_Nil)

lemma even_length_dup_last: "even (length (dup_last_if_odd level))"
  by (simp add: dup_last_if_odd_def)

lemma merkle_loop_short: "length hashes \<le> 1 \<Longrightarrow> merkle_loop sha256 hashes = hashes"
  by (subst merkle_loop.simps) simp

lemma merkle_loop_reduce: "merkle_loop sha256 hashes = merkle_reduce sha256 hashes"
proof (induction sha256 hashes rule: merkle_reduce.induct)
  case (1 sha256)
  show ?case by (simp add: merkle_loop_short)
next
  case (2 sha256 h)
  show ?case by (simp add: merkle_loop_short)
next
  case (3 sha256 h k level)
  have "merkle_loop sha256 (h # k # level) =
          merkle_loop sha256 (pair_level sha256 (pad_level (h # k # level)))"
    by (subst merkle_loop.simps) simp
  also have "\<dots> = merkle_loop sha256 (pair_up sha256 (dup_last_if_odd (h # k # level)))"
    by (simp only: pad_level_dup pair_level_pair_up [OF even_length_dup_last])
  finally show ?case
    by (simp add: "3.IH")
qed

lemma length_pair_up: "length (pair_up sha256 xs) = length xs div 2"
  by (induction sha256 xs rule: pair_up.induct) simp_all

lemma merkle_reduce_single:
  "level \<noteq> [] \<Longrightarrow> \<exists>h. merkle_reduce sha256 level = [h]"
proof (induction sha256 level rule: merkle_reduce.induct)
  case (3 sha256 h k level)
  have "0 < length (pair_up sha256 (dup_last_if_odd (h # k # level)))"
    by (simp add: length_pair_up dup_last_if_odd_def)
  then have "pair_up sha256 (dup_last_if_odd (h # k # level)) \<noteq> []"
    by (cases "pair_up sha256 (dup_last_if_odd (h # k # level))") simp_all
  then show ?case
    using "3.IH" by simp
qed simp_all

lemma collect_length: "collect ms = Inr xs \<Longrightarrow> length xs = length ms"
  by (induction ms arbitrary: xs) (auto simp: and_then_Inr_iff)

lemma zero_root: "concat (replicate 32 ''00'') = replicate 64 CHR ''0''"
  by code_simp

subsection \<open>One step of the environment\<close>

lemma mine_Inr:
  assumes "mine sha256 b58 s a = Inr m"
  shows "att_nonce m = nonce a"
    and "att_tx_order m = repaired_tx_order s (tx_order a)"
    and "att_new_timestamp m = base_timestamp s"
    and "hf_timestamp (att_header_fields m) = base_timestamp s"
    and "hf_nonce (att_header_fields m) = nonce a"
    and "hf_previousblockhash (att_header_fields m) = previousblockhash s"
    and "compute_hash sha256 (att_header_fields m) = Inr (att_block_hash m)"
    and "int_of_hex (att_block_hash m) = Inr (att_hash_int m)"
  using assms
  by (auto simp: mine_def Let_def and_then_Inr_iff)

lemma step_mined:
  "step sha256 b58 fresh s a = (s', Inr r) \<Longrightarrow> \<exists>m. mine sha256 b58 s a = Inr m"
  by (cases "mine sha256 b58 s a") (simp_all add: step_def)

lemma step_Inr:
  assumes "mine sha256 b58 s a = Inr m" and "step sha256 b58 fresh s a = (s', Inr r)"
  shows "hash_int (info r) = att_hash_int m"
    and "block_hash (info r) = att_block_hash m"
    and "info_header_fields (info r) = att_header_fields m"
    and "obs_timestamp (obs r) = att_new_timestamp m"
    and "current_tx_order s' = att_tx_order m"
    and "done_flag r = False"
    and "att_hash_int m < target s \<Longrightarrow> reward r = Int_value 100"
    and "\<not> att_hash_int m < target s \<Longrightarrow>
           \<exists>q. py_truediv (att_hash_int m) (2 ^ 256) = Inr q \<and> reward r = Float_value (- q)"
  using assms
  by (auto simp: step_def Let_def and_then_Inr_iff get_obs_def
        split: if_splits sum.splits prod.splits)

lemma init_Inr:
  "init t0 = Inr s \<Longrightarrow>
     bits s = BITS \<and> bits_to_target BITS = Inr (target s) \<and> 0 < target s \<and>
     current_timestamp s = base_timestamp s \<and> num_txs s = int (length (transactions s))"
  by (auto simp: init_def and_then_Inr_iff bits_to_target_def py_shl_def BITS_def Let_def
        drop_bit_eq_div push_bit_eq_mult low_24_mod)

lemma step_keeps:
  "step sha256 b58 fresh s a = (s', res) \<Longrightarrow>
     bits s' = bits s \<and> target s' = target s \<and> base_timestamp s' = base_timestamp s \<and>
     (current_timestamp s' = base_timestamp s \<or> current_timestamp s' = current_timestamp s) \<and>
     (num_txs s = int (length (transactions s)) \<longrightarrow> num_txs s' = int (length (transactions s')))"
  by (auto simp: step_def Let_def and_then_Inr_iff
        split: sum.splits if_splits prod.splits dest: mine_Inr(3))

lemma reachable_invariant:
  "reachable sha256 b58 s \<Longrightarrow>
     bits s = BITS \<and> bits_to_target BITS = Inr (target s) \<and> 0 < target s \<and>
     current_timestamp s = base_timestamp s \<and> num_txs s = int (length (transactions s))"
proof (induction rule: reachable.induct)
  case (reachable_init t0 s)
  then show ?case by (rule init_Inr)
next
  case (reachable_reset s)
  then show ?case by (simp add: reset_def Let_def)
next
  case (reachable_step s fresh a)
  obtain s' res where st: "step sha256 b58 fresh s a = (s', res)"
    by (cases "step sha256 b58 fresh s a")
  from step_keeps [OF st] reachable_step.IH show ?case
    by (auto simp: st)
qed

lemma clamp_in_range:
  "list_all (\<lambda>i. 0 \<le> i \<and> i < n) order \<Longrightarrow>
     map (\<lambda>i. min (max 0 i) (n - 1)) order = (order :: int list)"
  by (induction order) auto

lemma mine_reads_previous_hash:
  "mine sha256 b58 s a = Inr m \<Longrightarrow> \<exists>p. fromhex (previousblockhash s) = Inr p"
  by (auto simp: mine_def Let_def and_then_Inr_iff compute_hash_def serialize_block_header_def)

lemma mine_block_hash_hex:
  "mine sha256 b58 s a = Inr m \<Longrightarrow> \<exists>digest. att_block_hash m = hex digest"
  by (auto simp: mine_def Let_def and_then_Inr_iff compute_hash_def)

lemma step_raise_unchanged:
  assumes "step sha256 b58 fresh s a = (s', Inl e)"
  shows "s' = s"
proof (cases "mine sha256 b58 s a")
  case (Inl e')
  with assms show ?thesis by (simp add: step_def)
next
  case (Inr m)
  from mine_reads_previous_hash [OF Inr] obtain p where p: "fromhex (previousblockhash s) = Inr p"
    by blast
  from mine_block_hash_hex [OF Inr] obtain digest where d: "att_block_hash m = hex digest"
    by blast
  from assms Inr show ?thesis
    by (auto simp: step_def Let_def get_obs_def p d fromhex_hex and_then_Inr_iff
          split: if_splits sum.splits prod.splits)
qed

lemma step_Inr_state:
  assumes "mine sha256 b58 s a = Inr m" and "step sha256 b58 fresh s a = (s', Inr r)"
  shows "att_hash_int m < target s \<Longrightarrow>
           previousblockhash s' = att_block_hash m \<and> block_height s' = block_height s + 1 \<and>
           transactions s' = fresh \<and> num_txs s' = int (length fresh)"
    and "\<not> att_hash_int m < target s \<Longrightarrow>
           previousblockhash s' = previousblockhash s \<and> block_height s' = block_height s \<and>
           transactions s' = transactions s \<and> num_txs s' = num_txs s"
  using assms
  by (auto simp: step_def Let_def and_then_Inr_iff get_obs_def
        split: if_splits sum.splits prod.splits)

subsection \<open>Worked examples\<close>

text \<open>Three attempts on the freshly built environment: the digest of all zeros is below
  the target, the digest of all ones is above it, and the third digest, read as a
  big-endian number, is the target itself.\<close>

lemma example_found:
  "\<exists>s s' r. init 1700000000 = Inr s \<and>
     step (constant_digest (replicate 32 0)) decoded_21 [] s example_action = (s', Inr r) \<and>
     hash_int (info r) < target s"
proof -
  have "case init 1700000000 of
          Inl e \<Rightarrow> False
        | Inr s \<Rightarrow>
            (case step (constant_digest (replicate 32 0)) decoded_21 [] s example_action of
               (s', Inl e) \<Rightarrow> False
             | (s', Inr r) \<Rightarrow> hash_int (info r) < target s)"
    by code_simp
  then show ?thesis
    by (simp split: sum.splits prod.splits) (metis sum.exhaust_sel)
qed

lemma example_missed:
  "\<exists>s s' r. init 1700000000 = Inr s \<and>
     step (constant_digest (replicate 32 255)) decoded_21 [] s example_action = (s', Inr r) \<and>
     target s < hash_int (info r) \<and> hash_int (info r) = 2 ^ 256 - 1"
proof -
  have "case init 1700000000 of
          Inl e \<Rightarrow> False
        | Inr s \<Rightarrow>
            (case step (constant_digest (replicate 32 255)) decoded_21 [] s example_action of
               (s', Inl e) \<Rightarrow> False
             | (s', Inr r) \<Rightarrow> target s < hash_int (info r) \<and> hash_int (info r) = 2 ^ 256 - 1)"
    by code_simp
  then show ?thesis
    by (simp split: sum.splits prod.splits) (metis sum.exhaust_sel)
qed

lemma example_equal:
  "\<exists>s s' r. init 1700000000 = Inr s \<and>
     step (constant_digest (replicate 28 0 @ [0xff, 0xff, 0x7f, 0])) decoded_21 [] s
       example_action = (s', Inr r) \<and>
     hash_int (info r) = target s \<and> target s = 0x7fffff * 2 ^ 224"
proof -
  have "case init 1700000000 of
          Inl e \<Rightarrow> False
        | Inr s \<Rightarrow>
            (case step (constant_digest (replicate 28 0 @ [0xff, 0xff, 0x7f, 0])) decoded_21 [] s
                    example_action of
               (s', Inl e) \<Rightarrow> False
             | (s', Inr r) \<Rightarrow> hash_int (info r) = target s \<and> target s = 0x7fffff * 2 ^ 224)"
    by code_simp
  then show ?thesis
    by (simp split: sum.splits prod.splits) (metis sum.exhaust_sel)
qed

section \<open>The claims\<close>

subsection \<open>C1: the reward\<close>

text \<open>
  C1. In every step that returns: the block hash is the hexadecimal text of the
  reversed double hash of the serialized header and \<open>hash_int\<close> is that byte string read
  as a big-endian integer; the reward is 100 if and only if \<open>hash_int\<close> is strictly
  below the target; otherwise it is \<open>-(hash_int / 2 ** 256)\<close>, the negated double that
  Python's division returns for this quotient, which is at most 0 and differs from the
  exact quotient by at most the fraction \<open>2 ^ -53\<close> of it. When \<open>hash_int\<close> equals the
  target the attempt has failed. In a reachable environment the target is the one
  derived from \<open>bits\<close> and the reward of a failed attempt is negative.
\<close>

theorem step_reward:
  assumes "step sha256 b58 fresh s a = (s', Inr r)"
  shows "(\<exists>header. serialize_block_header (version s) (previousblockhash s)
                      (hf_merkleroot (info_header_fields (info r))) (base_timestamp s) (bits s)
                      (nonce a) = Inr header \<and>
                    block_hash (info r) = hex (rev (double_sha256 sha256 header)) \<and>
                    hash_int (info r) = be_value (rev (double_sha256 sha256 header))) \<and>
         (reward r = Int_value 100 \<longleftrightarrow> hash_int (info r) < target s) \<and>
         (number_value (reward r) = 100 \<longleftrightarrow> hash_int (info r) < target s) \<and>
         (\<not> hash_int (info r) < target s \<longrightarrow>
            (\<exists>q. py_truediv (hash_int (info r)) (2 ^ 256) = Inr q \<and>
                 reward r = Float_value (- q) \<and> 0 \<le> q \<and>
                 \<bar>q - of_int (hash_int (info r)) / 2 ^ 256\<bar>
                   \<le> of_int (hash_int (info r)) / 2 ^ 256 / 2 ^ 53)) \<and>
         (hash_int (info r) = target s \<longrightarrow> number_value (reward r) \<noteq> 100) \<and>
         (reachable sha256 b58 s \<longrightarrow>
            bits_to_target (bits s) = Inr (target s) \<and>
            (\<not> hash_int (info r) < target s \<longrightarrow> number_value (reward r) < 0))"
proof -
  from step_mined [OF assms] obtain m where m: "mine sha256 b58 s a = Inr m"
    by blast
  note r = step_Inr [OF m assms]
  from mine_Inr(7) [OF m] obtain header where
    header: "serialize_block_header (hf_version (att_header_fields m))
               (hf_previousblockhash (att_header_fields m)) (hf_merkleroot (att_header_fields m))
               (hf_timestamp (att_header_fields m)) (hf_bits (att_header_fields m))
               (hf_nonce (att_header_fields m)) = Inr header"
    and bh: "att_block_hash m = hex (rev (double_sha256 sha256 header))"
    by (auto simp: compute_hash_def and_then_Inr_iff)
  have fields: "hf_version (att_header_fields m) = version s"
      "hf_previousblockhash (att_header_fields m) = previousblockhash s"
      "hf_timestamp (att_header_fields m) = base_timestamp s"
      "hf_bits (att_header_fields m) = bits s"
      "hf_nonce (att_header_fields m) = nonce a"
    using m by (auto simp: mine_def Let_def and_then_Inr_iff)
  have parsed: "int_of_hex (hex (rev (double_sha256 sha256 header))) = Inr (att_hash_int m)"
    using mine_Inr(8) [OF m] bh by simp
  then have "rev (double_sha256 sha256 header) \<noteq> []"
    by (auto simp: int_of_hex_def)
  from int_of_hex_hex [OF this] parsed
  have val: "att_hash_int m = be_value (rev (double_sha256 sha256 header))"
    by simp
  have nonneg: "0 \<le> att_hash_int m"
    using int_of_hex_nonneg [OF mine_Inr(8) [OF m]] .
  have hashed: "\<exists>header. serialize_block_header (version s) (previousblockhash s)
                      (hf_merkleroot (info_header_fields (info r))) (base_timestamp s) (bits s)
                      (nonce a) = Inr header \<and>
                    block_hash (info r) = hex (rev (double_sha256 sha256 header)) \<and>
                    hash_int (info r) = be_value (rev (double_sha256 sha256 header))"
    using header bh val fields by (auto simp: r(1,2,3))
  have derived: "bits_to_target (bits s) = Inr (target s)" if "reachable sha256 b58 s"
    using reachable_invariant [OF that] by simp
  show ?thesis
  proof (cases "att_hash_int m < target s")
    case True
    from r(7) [OF True] have "reward r = Int_value 100" .
    with True hashed derived show ?thesis
      by (simp add: r(1))
  next
    case False
    from r(8) [OF False] obtain q where q: "py_truediv (att_hash_int m) (2 ^ 256) = Inr q"
      and rew: "reward r = Float_value (- q)"
      by blast
    from q nonneg have nd: "nearest_double (att_hash_int m) (2 ^ 256) = Inr q"
      by (auto simp: py_truediv_def and_then_Inr_iff split: if_splits)
    have q0: "0 \<le> q"
      using nearest_double_nonneg [OF nonneg _ nd] by simp
    have near: "\<bar>q - of_int (att_hash_int m) / 2 ^ 256\<bar>
                  \<le> of_int (att_hash_int m) / 2 ^ 256 / 2 ^ 53"
    proof (cases "att_hash_int m = 0")
      case True
      with nd show ?thesis by (simp add: nearest_double_def)
    next
      case False
      with nonneg have pos: "0 < att_hash_int m"
        by simp
      then have "(1::rat) \<le> of_int (att_hash_int m)"
        by simp
      then have "(1::rat) / 2 ^ 256 \<le> of_int (att_hash_int m) / 2 ^ 256"
        by (rule divide_right_mono) simp
      moreover have "pow2 (- 1022) \<le> 1 / 2 ^ 256"
        by (simp add: pow2_def)
      ultimately have "pow2 (- 1022) \<le> of_int (att_hash_int m) / of_int (2 ^ 256)"
        by simp
      from nearest_double_near [OF pos _ this nd] show ?thesis
        by simp
    qed
    have strict: "number_value (reward r) < 0"
      if "reachable sha256 b58 s"
    proof -
      from reachable_invariant [OF that] False have pos: "0 < att_hash_int m"
        by simp
      then have x: "(0::rat) < of_int (att_hash_int m) / 2 ^ 256"
        by simp
      have "of_int (att_hash_int m) / 2 ^ 256 / 2 ^ 53 < (of_int (att_hash_int m) / 2 ^ 256 :: rat)"
        using x by simp
      with near have "0 < q"
        by linarith
      then show ?thesis
        by (simp add: rew)
    qed
    from q0 have not100: "number_value (reward r) \<noteq> 100" "reward r \<noteq> Int_value 100"
      by (simp_all add: rew)
    show ?thesis
      using False hashed q rew q0 near strict derived not100
      by (auto simp: r(1))
  qed
qed

theorem step_reward_witness:
  "(\<exists>s s' r. reachable (constant_digest (replicate 32 0)) decoded_21 s \<and>
      step (constant_digest (replicate 32 0)) decoded_21 [] s example_action = (s', Inr r) \<and>
      hash_int (info r) < target s \<and> reward r = Int_value 100) \<and>
   (\<exists>s s' r. reachable (constant_digest (replicate 32 255)) decoded_21 s \<and>
      step (constant_digest (replicate 32 255)) decoded_21 [] s example_action = (s', Inr r) \<and>
      hash_int (info r) = 2 ^ 256 - 1 \<and> target s < hash_int (info r) \<and>
      reward r = Float_value (- 1)) \<and>
   (\<exists>s s' r. reachable (constant_digest (replicate 28 0 @ [0xff, 0xff, 0x7f, 0])) decoded_21 s \<and>
      step (constant_digest (replicate 28 0 @ [0xff, 0xff, 0x7f, 0])) decoded_21 [] s
        example_action = (s', Inr r) \<and>
      hash_int (info r) = target s \<and> reward r = Float_value (- (8388607 / 2 ^ 32)))"
proof (intro conjI)
  from example_found obtain s s' r where e: "init 1700000000 = Inr s"
    "step (constant_digest (replicate 32 0)) decoded_21 [] s example_action = (s', Inr r)"
    "hash_int (info r) < target s"
    by blast
  have re: "reachable (constant_digest (replicate 32 0)) decoded_21 s"
    using e(1) by (rule reachable_init)
  from step_reward [OF e(2)] e(3) have "reward r = Int_value 100"
    by blast
  with re e show "\<exists>s s' r. reachable (constant_digest (replicate 32 0)) decoded_21 s \<and>
      step (constant_digest (replicate 32 0)) decoded_21 [] s example_action = (s', Inr r) \<and>
      hash_int (info r) < target s \<and> reward r = Int_value 100"
    by blast
next
  from example_missed obtain s s' r where e: "init 1700000000 = Inr s"
    "step (constant_digest (replicate 32 255)) decoded_21 [] s example_action = (s', Inr r)"
    "target s < hash_int (info r)" "hash_int (info r) = 2 ^ 256 - 1"
    by blast
  have re: "reachable (constant_digest (replicate 32 255)) decoded_21 s"
    using e(1) by (rule reachable_init)
  have "py_truediv (2 ^ 256 - 1) (2 ^ 256) = Inr 1"
    by code_simp
  with step_reward [OF e(2)] e(3,4) have "reward r = Float_value (- 1)"
    by auto
  with re e show "\<exists>s s' r. reachable (constant_digest (replicate 32 255)) decoded_21 s \<and>
      step (constant_digest (replicate 32 255)) decoded_21 [] s example_action = (s', Inr r) \<and>
      hash_int (info r) = 2 ^ 256 - 1 \<and> target s < hash_int (info r) \<and>
      reward r = Float_value (- 1)"
    by blast
next
  from example_equal obtain s s' r where e: "init 1700000000 = Inr s"
    "step (constant_digest (replicate 28 0 @ [0xff, 0xff, 0x7f, 0])) decoded_21 [] s
        example_action = (s', Inr r)"
    "hash_int (info r) = target s" "target s = 0x7fffff * 2 ^ 224"
    by blast
  have re: "reachable (constant_digest (replicate 28 0 @ [0xff, 0xff, 0x7f, 0])) decoded_21 s"
    using e(1) by (rule reachable_init)
  have "py_truediv (0x7fffff * 2 ^ 224) (2 ^ 256) = Inr (8388607 / 2 ^ 32)"
    by code_simp
  with step_reward [OF e(2)] e(3,4) have "reward r = Float_value (- (8388607 / 2 ^ 32))"
    by auto
  with re e show "\<exists>s s' r.
      reachable (constant_digest (replicate 28 0 @ [0xff, 0xff, 0x7f, 0])) decoded_21 s \<and>
      step (constant_digest (replicate 28 0 @ [0xff, 0xff, 0x7f, 0])) decoded_21 [] s
        example_action = (s', Inr r) \<and>
      hash_int (info r) = target s \<and> reward r = Float_value (- (8388607 / 2 ^ 32))"
    by blast
qed

subsection \<open>C2: the serialized header\<close>



subsection \<open>C3: the Merkle root\<close>

text \<open>
  C3. \<open>merkle_root\<close> computes what the specification words: 64 zero characters for the
  empty list; otherwise every hash is decoded, the level is reduced by duplicating the
  last element of an odd level and hashing adjacent pairs until exactly one element
  remains, and that element is returned reversed and hex-encoded. A hash that does not
  decode raises in both.
\<close>

theorem merkle_root_refines_spec:
  "merkle_root sha256 tx_hashes = merkle_root_spec sha256 tx_hashes"
proof (cases "tx_hashes = []")
  case True
  then show ?thesis
    by (simp add: merkle_root_def merkle_root_spec_def zero_root)
next
  case False
  show ?thesis
  proof (cases "collect (map fromhex tx_hashes)")
    case (Inl e)
    with False show ?thesis
      by (simp add: merkle_root_def merkle_root_spec_def)
  next
    case (Inr level)
    with False have "level \<noteq> []"
      using collect_length [OF Inr] by auto
    then obtain h where "merkle_reduce sha256 level = [h]"
      using merkle_reduce_single by blast
    with False Inr show ?thesis
      by (simp add: merkle_root_def merkle_root_spec_def merkle_loop_reduce)
  qed
qed

theorem merkle_root_refines_spec_witness:
  "merkle_root_spec (take 4) [''0a'', ''0b'', ''0c''] = Inr ''0c0c0b0a'' \<and>
   merkle_root_spec (take 4) [] = Inr ''0000000000000000000000000000000000000000000000000000000000000000'' \<and>
   merkle_root_spec (take 4) [''0a'', ''zz''] = Inl ValueError"
proof -
  have "merkle_root (take 4) [''0a'', ''0b'', ''0c''] = Inr ''0c0c0b0a''"
    by code_simp
  moreover have "merkle_root (take 4) [] =
      Inr ''0000000000000000000000000000000000000000000000000000000000000000''"
    by code_simp
  moreover have "merkle_root (take 4) [''0a'', ''zz''] = Inl ValueError"
    by code_simp
  ultimately show ?thesis
    by (simp only: merkle_root_refines_spec)
qed

subsection \<open>C4: the ordering a step uses\<close>

text \<open>
  C4, as amended. \<open>fix_permutation\<close> is the drop-and-append normalisation for every
  list of integers and every \<open>n\<close>: entries out of range and later duplicates are
  dropped, the missing indices are appended in ascending order, the result is a
  permutation of \<open>0, ..., n - 1\<close>, and nothing is raised. \<open>step\<close> clamps every entry
  into \<open>[0, num_txs - 1]\<close> before the repair, so the ordering it uses is the
  normalisation of the clamped list; it is the normalisation of the input itself when
  every entry of the input is in range.
\<close>

theorem tx_order_repair:
  "fix_permutation arr n = normalise arr n \<and>
   distinct (fix_permutation arr n) \<and> set (fix_permutation arr n) = {x. 0 \<le> x \<and> x < n} \<and>
   repaired_tx_order s order =
     normalise (map (\<lambda>i. min (max 0 i) (num_txs s - 1)) order) (num_txs s) \<and>
   (list_all (\<lambda>i. 0 \<le> i \<and> i < num_txs s) order \<longrightarrow>
      repaired_tx_order s order = normalise order (num_txs s)) \<and>
   (\<forall>sha256 b58 fresh a s' r. step sha256 b58 fresh s a = (s', Inr r) \<longrightarrow>
      current_tx_order s' = repaired_tx_order s (tx_order a))"
proof (intro conjI allI impI)
  show "fix_permutation arr n = normalise arr n"
    by (rule fix_permutation_normalise)
  show "distinct (fix_permutation arr n)"
    by (simp add: fix_permutation_normalise normalise_perm(1))
  show "set (fix_permutation arr n) = {x. 0 \<le> x \<and> x < n}"
    by (simp add: fix_permutation_normalise normalise_perm(2) set_py_range)
  show "repaired_tx_order s order =
     normalise (map (\<lambda>i. min (max 0 i) (num_txs s - 1)) order) (num_txs s)"
    by (simp add: repaired_tx_order_def fix_permutation_normalise)
  show "repaired_tx_order s order = normalise order (num_txs s)"
    if "list_all (\<lambda>i. 0 \<le> i \<and> i < num_txs s) order"
    using clamp_in_range [OF that] by (simp add: repaired_tx_order_def fix_permutation_normalise)
next
  fix sha256 b58 fresh a s' r
  assume st: "step sha256 b58 fresh s a = (s', Inr r)"
  from step_mined [OF st] obtain m where m: "mine sha256 b58 s a = Inr m"
    by blast
  from step_Inr(5) [OF m st] mine_Inr(2) [OF m]
  show "current_tx_order s' = repaired_tx_order s (tx_order a)"
    by simp
qed

theorem tx_order_repair_witness:
  "list_all (\<lambda>i. 0 \<le> i \<and> i < num_txs three_tx_env) [2, 2, 0] \<and>
   repaired_tx_order three_tx_env [2, 2, 0] = [2, 0, 1] \<and>
   normalise [2, 2, 0] 3 = [2, 0, 1] \<and>
   (\<exists>s'. fst (step (constant_digest (replicate 32 255)) decoded_21 [] three_tx_env
                  \<lparr>nonce = 0, extra_nonce = 0, tx_order = [7, -1]\<rparr>) = s' \<and>
         current_tx_order s' = [2, 0, 1])"
proof -
  have n: "num_txs three_tx_env = 3"
    by (simp add: three_tx_env_def)
  have inr: "list_all (\<lambda>i. 0 \<le> i \<and> i < num_txs three_tx_env) [2, 2, 0]"
    by (simp add: n)
  have norm: "normalise [2, 2, 0] 3 = [2, 0, 1]"
    by code_simp
  have rep: "repaired_tx_order three_tx_env [7, -1] = [2, 0, 1]"
    by code_simp
  have "case step (constant_digest (replicate 32 255)) decoded_21 [] three_tx_env
               \<lparr>nonce = 0, extra_nonce = 0, tx_order = [7, -1]\<rparr> of
          (s', Inl e) \<Rightarrow> False | (s', Inr r) \<Rightarrow> True"
    by code_simp
  then obtain s' r where st: "step (constant_digest (replicate 32 255)) decoded_21 [] three_tx_env
               \<lparr>nonce = 0, extra_nonce = 0, tx_order = [7, -1]\<rparr> = (s', Inr r)"
    by (simp split: sum.splits prod.splits) (metis sum.exhaust_sel)
  note t = tx_order_repair [of "[2, 2, 0]" 3 three_tx_env "[2, 2, 0]"]
  from t inr norm n have "repaired_tx_order three_tx_env [2, 2, 0] = [2, 0, 1]"
    by simp
  moreover from t st rep have "current_tx_order s' = [2, 0, 1]"
    by (metis action.select_convs(3))
  ultimately show ?thesis
    using inr norm st by simp
qed

text \<open>
  C4 as stated fails: over three transactions the ordering \<open>[5]\<close> is clamped to \<open>[2]\<close>
  and repaired to \<open>[2, 0, 1]\<close>, where dropping the entry out of range gives \<open>[0, 1, 2]\<close>.
\<close>

theorem tx_order_clamped_not_dropped:
  "repaired_tx_order three_tx_env [5] = [2, 0, 1] \<and>
   normalise [5] (num_txs three_tx_env) = [0, 1, 2]"
  by code_simp

subsection \<open>C5: the repair of \<open>[5, 5, -1, 2]\<close>\<close>

text \<open>
  C5. Over three non-coinbase transactions the ordering \<open>[5, 5, -1, 2]\<close> is repaired to
  \<open>[2, 0, 1]\<close>, by \<open>fix_permutation\<close> alone and by the clamp and repair of \<open>step\<close>.
\<close>

theorem fix_permutation_example:
  "fix_permutation [5, 5, -1, 2] 3 = [2, 0, 1] \<and>
   repaired_tx_order (s\<lparr>num_txs := 3\<rparr>) [5, 5, -1, 2] = [2, 0, 1]"
  by (simp add: repaired_tx_order_def fix_permutation_def py_range_def py_prefix_def upt_rec)

subsection \<open>C6: the target of a compact value\<close>

text \<open>
  C6, as amended. For every \<open>bits\<close> whose exponent \<open>bits div 2 ^ 24\<close> (the top byte of a
  32-bit value) is at least 3, \<open>bits_to_target\<close> returns the exact integer
  \<open>mantissa * 2 ^ (8 * (exponent - 3))\<close> with \<open>mantissa = bits mod 2 ^ 24\<close>; nothing is
  truncated: \<open>0xffffffff\<close> gives \<open>0xffffff * 2 ^ 2016\<close>, which is above \<open>2 ^ 256\<close>.
\<close>

theorem bits_to_target_exact:
  "(3 \<le> cb div 2 ^ 24 \<longrightarrow>
      bits_to_target cb = Inr ((cb mod 2 ^ 24) * 2 ^ (8 * nat (cb div 2 ^ 24 - 3)))) \<and>
   bits_to_target 0xffffffff = Inr (0xffffff * 2 ^ 2016) \<and>
   (2::int) ^ 256 < 0xffffff * 2 ^ 2016"
proof (intro conjI impI)
  assume e: "3 \<le> cb div 2 ^ 24"
  then have "nat (8 * (cb div 2 ^ 24 - 3)) = 8 * nat (cb div 2 ^ 24 - 3)"
    by (simp add: nat_mult_distrib)
  with e show "bits_to_target cb = Inr ((cb mod 2 ^ 24) * 2 ^ (8 * nat (cb div 2 ^ 24 - 3)))"
    by (simp add: bits_to_target_def py_shl_def Let_def top_byte_div low_24_mod push_bit_eq_mult)
next
  show "bits_to_target 0xffffffff = Inr (0xffffff * 2 ^ 2016)"
    by (simp add: bits_to_target_def py_shl_def Let_def top_byte_div low_24_mod push_bit_eq_mult)
next
  show "(2::int) ^ 256 < 0xffffff * 2 ^ 2016"
    by simp
qed

theorem bits_to_target_exact_witness:
  "(3::int) \<le> 0x1f7fffff div 2 ^ 24 \<and> bits_to_target 0x1f7fffff = Inr (0x7fffff * 2 ^ 224)"
  using bits_to_target_exact [of "0x1f7fffff"] by simp

text \<open>
  C6 as stated fails below exponent 3: for \<open>0x02008000\<close> the product
  \<open>0x8000 * 2 ^ (8 * (2 - 3))\<close> is the integer 128, and the function raises.
\<close>

theorem bits_to_target_small_exponent_raises:
  "bits_to_target 0x02008000 = Inl ValueError"
  by (simp add: bits_to_target_def py_shl_def Let_def drop_bit_eq_div)

subsection \<open>C7: what a step changes\<close>

text \<open>
  C7. A step whose \<open>hash_int\<close> is at least the target leaves \<open>previousblockhash\<close>,
  \<open>block_height\<close> and the transaction pool as they were; a step whose \<open>hash_int\<close> is
  strictly below the target sets \<open>previousblockhash\<close> to the new block hash, adds
  exactly 1 to \<open>block_height\<close> and replaces the pool by the freshly generated one. A
  step that raises changes nothing.
\<close>

theorem step_frame:
  assumes "step sha256 b58 fresh s a = (s', res)"
  shows "(\<forall>r. res = Inr r \<and> target s \<le> hash_int (info r) \<longrightarrow>
            previousblockhash s' = previousblockhash s \<and> block_height s' = block_height s \<and>
            transactions s' = transactions s \<and> num_txs s' = num_txs s) \<and>
         (\<forall>r. res = Inr r \<and> hash_int (info r) < target s \<longrightarrow>
            previousblockhash s' = block_hash (info r) \<and> block_height s' = block_height s + 1 \<and>
            transactions s' = fresh \<and> num_txs s' = int (length fresh)) \<and>
         (\<forall>e. res = Inl e \<longrightarrow> s' = s)"
proof -
  have raised: "s' = s" if "res = Inl e" for e
    using assms that by (auto dest: step_raise_unchanged)
  have missed: "previousblockhash s' = previousblockhash s \<and> block_height s' = block_height s \<and>
            transactions s' = transactions s \<and> num_txs s' = num_txs s"
    if "res = Inr r \<and> target s \<le> hash_int (info r)" for r
  proof -
    from assms that have st: "step sha256 b58 fresh s a = (s', Inr r)"
      and miss: "\<not> hash_int (info r) < target s"
      by auto
    from step_mined [OF st] obtain m where m: "mine sha256 b58 s a = Inr m"
      by blast
    from miss step_Inr(1) [OF m st] have "\<not> att_hash_int m < target s"
      by simp
    then show ?thesis
      by (rule step_Inr_state(2) [OF m st])
  qed
  have found: "previousblockhash s' = block_hash (info r) \<and>
            block_height s' = block_height s + 1 \<and>
            transactions s' = fresh \<and> num_txs s' = int (length fresh)"
    if "res = Inr r \<and> hash_int (info r) < target s" for r
  proof -
    from assms that have st: "step sha256 b58 fresh s a = (s', Inr r)"
      and hit: "hash_int (info r) < target s"
      by auto
    from step_mined [OF st] obtain m where m: "mine sha256 b58 s a = Inr m"
      by blast
    from hit step_Inr(1) [OF m st] have "att_hash_int m < target s"
      by simp
    from step_Inr_state(1) [OF m st this] step_Inr(2) [OF m st]
    show ?thesis
      by simp
  qed
  from raised missed found show ?thesis
    by blast
qed

theorem step_frame_witness:
  "(\<exists>s s' r. step (constant_digest (replicate 32 0)) decoded_21 [''ab''] s example_action = (s', Inr r) \<and>
      hash_int (info r) < target s \<and> previousblockhash s' = block_hash (info r) \<and>
      block_height s' = block_height s + 1 \<and> transactions s' = [''ab''] \<and> num_txs s' = 1) \<and>
   (\<exists>s s' r. step (constant_digest (replicate 32 255)) decoded_21 [] s example_action = (s', Inr r) \<and>
      target s \<le> hash_int (info r) \<and> previousblockhash s' = previousblockhash s \<and>
      block_height s' = block_height s \<and> transactions s' = transactions s)"
proof (intro conjI)
  have "case step (constant_digest (replicate 32 0)) decoded_21 [''ab''] three_tx_env example_action of
          (s', Inl e) \<Rightarrow> False
        | (s', Inr r) \<Rightarrow> hash_int (info r) < target three_tx_env"
    by code_simp
  then obtain s' r where st:
    "step (constant_digest (replicate 32 0)) decoded_21 [''ab''] three_tx_env example_action = (s', Inr r)"
    and hit: "hash_int (info r) < target three_tx_env"
    by (simp split: sum.splits prod.splits) (metis sum.exhaust_sel)
  from step_frame [OF st] hit
  have "previousblockhash s' = block_hash (info r) \<and>
      block_height s' = block_height three_tx_env + 1 \<and> transactions s' = [''ab''] \<and> num_txs s' = 1"
    by simp
  with st hit show "\<exists>s s' r.
      step (constant_digest (replicate 32 0)) decoded_21 [''ab''] s example_action = (s', Inr r) \<and>
      hash_int (info r) < target s \<and> previousblockhash s' = block_hash (info r) \<and>
      block_height s' = block_height s + 1 \<and> transactions s' = [''ab''] \<and> num_txs s' = 1"
    by blast
next
  from example_missed obtain s s' r where st:
    "step (constant_digest (replicate 32 255)) decoded_21 [] s example_action = (s', Inr r)"
    and miss: "target s < hash_int (info r)"
    by blast
  from step_frame [OF st] miss
  have "previousblockhash s' = previousblockhash s \<and>
      block_height s' = block_height s \<and> transactions s' = transactions s"
    by simp
  with st miss show "\<exists>s s' r.
      step (constant_digest (replicate 32 255)) decoded_21 [] s example_action = (s', Inr r) \<and>
      target s \<le> hash_int (info r) \<and> previousblockhash s' = previousblockhash s \<and>
      block_height s' = block_height s \<and> transactions s' = transactions s"
    by (meson less_imp_le)
qed

subsection \<open>C8: the timestamp\<close>

text \<open>
  C8. In every reachable environment \<open>current_timestamp\<close> equals \<open>base_timestamp\<close>, and
  for every action the header a step assembles carries \<open>base_timestamp\<close>, never a
  smaller value; after the step \<open>base_timestamp\<close> is unchanged and \<open>current_timestamp\<close>
  still equals it.
\<close>

theorem step_timestamp_pinned:
  assumes "reachable sha256 b58 s" and "step sha256 b58 fresh s a = (s', res)"
  shows "current_timestamp s = base_timestamp s \<and>
         base_timestamp s' = base_timestamp s \<and>
         current_timestamp s' = base_timestamp s \<and>
         (\<forall>r. res = Inr r \<longrightarrow>
            hf_timestamp (info_header_fields (info r)) = base_timestamp s \<and>
            \<not> hf_timestamp (info_header_fields (info r)) < base_timestamp s \<and>
            obs_timestamp (obs r) = base_timestamp s)"
proof -
  note inv = reachable_invariant [OF assms(1)]
  from step_keeps [OF assms(2)] inv
  have kept: "base_timestamp s' = base_timestamp s" "current_timestamp s' = base_timestamp s"
    by auto
  have "hf_timestamp (info_header_fields (info r)) = base_timestamp s \<and>
        obs_timestamp (obs r) = base_timestamp s" if "res = Inr r" for r
  proof -
    from assms(2) that have st: "step sha256 b58 fresh s a = (s', Inr r)"
      by simp
    from step_mined [OF st] obtain m where m: "mine sha256 b58 s a = Inr m"
      by blast
    note r = step_Inr(3,4) [OF m st]
    from mine_Inr(3,4) [OF m] r show ?thesis
      by simp
  qed
  with inv kept show ?thesis
    by simp
qed

theorem step_timestamp_pinned_witness:
  "\<exists>s s' r. reachable (constant_digest (replicate 32 0)) decoded_21 s \<and>
     step (constant_digest (replicate 32 0)) decoded_21 [] s example_action = (s', Inr r) \<and>
     base_timestamp s = 1700000000 \<and>
     hf_timestamp (info_header_fields (info r)) = 1700000000 \<and>
     current_timestamp s' = 1700000000"
proof -
  from example_found obtain s s' r where e: "init 1700000000 = Inr s"
    "step (constant_digest (replicate 32 0)) decoded_21 [] s example_action = (s', Inr r)"
    by blast
  have re: "reachable (constant_digest (replicate 32 0)) decoded_21 s"
    using e(1) by (rule reachable_init)
  have t0: "base_timestamp s = 1700000000"
    using e(1) by (auto simp: init_def and_then_Inr_iff)
  from step_timestamp_pinned [OF re e(2)] t0
  have "hf_timestamp (info_header_fields (info r)) = 1700000000 \<and>
        current_timestamp s' = 1700000000"
    by simp
  with re e(2) t0 show ?thesis
    by blast
qed

subsection \<open>C9: the termination flag\<close>

text \<open>
  C9. The flag \<open>done\<close> of the tuple a step returns is \<open>False\<close> on every call, also when
  the hash is strictly below the target.
\<close>

theorem step_never_done:
  "step sha256 b58 fresh s a = (s', Inr r) \<Longrightarrow> done_flag r = False"
proof -
  assume st: "step sha256 b58 fresh s a = (s', Inr r)"
  from step_mined [OF st] obtain m where m: "mine sha256 b58 s a = Inr m"
    by blast
  from step_Inr(6) [OF m st] show ?thesis .
qed

theorem step_never_done_witness:
  "\<exists>s s' r. step (constant_digest (replicate 32 0)) decoded_21 [] s example_action = (s', Inr r) \<and>
     hash_int (info r) < target s \<and> done_flag r = False"
proof -
  from example_found obtain s s' r where e:
    "step (constant_digest (replicate 32 0)) decoded_21 [] s example_action = (s', Inr r)"
    "hash_int (info r) < target s"
    by blast
  from step_never_done [OF e(1)] e show ?thesis
    by blast
qed

subsection \<open>C10: the domain of \<open>bits_to_target\<close>\<close>

text \<open>
  C10. When the exponent \<open>bits >> 24\<close> is at least 3 the shift amount
  \<open>8 * (exponent - 3)\<close> is not negative and \<open>bits_to_target\<close> returns an integer; when
  the exponent is below 3 the shift amount is negative and the function raises
  ValueError.
\<close>

theorem bits_to_target_defined_iff:
  "(3 \<le> drop_bit 24 cb \<longrightarrow>
      0 \<le> 8 * (drop_bit 24 cb - 3) \<and> (\<exists>t. bits_to_target cb = Inr t)) \<and>
   (drop_bit 24 cb < 3 \<longrightarrow>
      8 * (drop_bit 24 cb - 3) < 0 \<and> bits_to_target cb = Inl ValueError)"
  by (simp add: bits_to_target_def py_shl_def Let_def)

theorem bits_to_target_defined_iff_witness:
  "(\<exists>t. bits_to_target 0x1f7fffff = Inr t) \<and> bits_to_target 0x02ffffff = Inl ValueError \<and>
   bits_to_target 0x00000000 = Inl ValueError \<and> bits_to_target 0x01000001 = Inl ValueError"
  using bits_to_target_defined_iff [of "0x1f7fffff"] bits_to_target_defined_iff [of "0x02ffffff"]
    bits_to_target_defined_iff [of "0"] bits_to_target_defined_iff [of "0x01000001"]
  by (simp add: drop_bit_eq_div)

end
